theory Spec2Isabelle
  imports Main "HOL-Library.Word"
begin

unbundle bit_operations_syntax

section \<open>Data model of FrskySP.cpp (Teensy branch)\<close>

text \<open>
  The Teensy branch of the library (\<^verbatim>\<open>#ifdef USE_TEENSY\<close>) is the one whose code is in
  the source file; the other branch only delegates to another library. Machine integers
  are words of their C width. \<^verbatim>\<open>short\<close> is the 16-bit signed type of the target.
\<close>

type_synonym u8 = "8 word"
type_synonym u16 = "16 word"
type_synonym u32 = "32 word"
type_synonym u64 = "64 word"
type_synonym short = "16 word"

definition MAX_SENSORS :: nat where
  "MAX_SENSORS = 8"

definition SPORT_FRAME_BEGIN :: u8 where
  "SPORT_FRAME_BEGIN = 0x7E"

definition SPORT_BYTE_STUFF_MARKER :: u8 where
  "SPORT_BYTE_STUFF_MARKER = 0x7D"

definition SPORT_BYTE_STUFF_MASK :: u8 where
  "SPORT_BYTE_STUFF_MASK = 0x20"

definition UART_C3_TXDIR :: u8 where
  "UART_C3_TXDIR = 0x20"

text \<open>
  \<^verbatim>\<open>union packet { uint8_t byte[8]; uint64_t uint64; }\<close>: one 64-bit value, read and
  written through either member. The target (ARM Cortex-M4) is little-endian, so
  \<^verbatim>\<open>byte[i]\<close> is bits \<open>8 * i\<close> to \<open>8 * i + 7\<close> of \<^verbatim>\<open>uint64\<close>.
\<close>

type_synonym packet = u64

definition byte_at :: "packet \<Rightarrow> nat \<Rightarrow> u8" where
  "byte_at p i = ucast (drop_bit (8 * i) p)"

definition set_byte :: "packet \<Rightarrow> nat \<Rightarrow> u8 \<Rightarrow> packet" where
  "set_byte p i v = (p AND NOT (push_bit (8 * i) 0xFF)) OR push_bit (8 * i) (ucast v)"

definition packet_bytes :: "packet \<Rightarrow> u8 list" where
  "packet_bytes p = map (byte_at p) [0..<8]"

text \<open>
  \<^verbatim>\<open>struct FrskySP_SensorData { uint16_t id; uint32_t val; }\<close>. The fields are primed:
  \<open>id\<close> is a constant of HOL, and \<open>val\<close> names the parameters below, where the
  parameter \<^verbatim>\<open>id\<close> is \<open>ident\<close>.
\<close>

record FrskySP_SensorData =
  id' :: u16
  val' :: u32

text \<open>
  The memory-mapped UART registers the code touches, and what the serial port and the
  registers are asked to do, in program order.
\<close>

datatype reg = UART_C1 | UART_C3 | UART_S2

datatype event =
    SerialBegin nat
  | RegWrite reg u8
  | SerialWrite u8
  | SerialFlush

text \<open>
  The file-scope variables \<^verbatim>\<open>_sensorTable\<close>, \<^verbatim>\<open>_sensorTableIdx\<close>, \<^verbatim>\<open>_sensorId\<close> and
  \<^verbatim>\<open>_sensorValues\<close> (an Isabelle name cannot start with an underscore), the registers,
  and the log of effects. The table is an array of \<open>MAX_SENSORS\<close> slots: a map from the
  index to the slot, every access of the code checked against \<open>MAX_SENSORS\<close> below.
\<close>

record sport_state =
  sensorTable :: "nat \<Rightarrow> FrskySP_SensorData"
  sensorTableIdx :: u8
  sensorId :: u8
  sensorValues :: u8
  regs :: "reg \<Rightarrow> u8"
  effects :: "event list"

definition initial_state :: sport_state where
  "initial_state =
     \<lparr> sensorTable = (\<lambda>_. \<lparr> id' = 0, val' = 0 \<rparr>),
       sensorTableIdx = 0, sensorId = 0, sensorValues = 0,
       regs = (\<lambda>_. 0), effects = [] \<rparr>"

section \<open>The checksum\<close>

text \<open>
  One round of the loop body of \<^verbatim>\<open>CRC\<close>. The accumulator is a \<^verbatim>\<open>short\<close>; \<^verbatim>\<open>>>\<close> on it
  is the arithmetic shift. The argument of \<^verbatim>\<open>CRC\<close> is a pointer to 8 bytes (its only
  caller passes \<^verbatim>\<open>packet.byte\<close>): the list of these bytes, of which the loop reads
  \<^verbatim>\<open>packet[0]\<close> to \<^verbatim>\<open>packet[7]\<close>.
\<close>

definition crc_step :: "short \<Rightarrow> u8 \<Rightarrow> short" where
  "crc_step crc b =
     (let crc = crc + ucast b;
          crc = crc + signed_drop_bit 8 crc;
          crc = crc AND 0x00ff;
          crc = crc + signed_drop_bit 8 crc;
          crc = crc AND 0x00ff
      in crc)"

function crc_loop :: "u8 list \<Rightarrow> nat \<Rightarrow> short \<Rightarrow> short" where
  "crc_loop packet i crc =
     (if i < 8 then crc_loop packet (i + 1) (crc_step crc (packet ! i)) else crc)"
  by pat_completeness auto
termination
  by (relation "measure (\<lambda>(packet, i, crc). 8 - i)") auto

declare crc_loop.simps [simp del]

text \<open>\<^verbatim>\<open>return ~crc;\<close> converted to \<^verbatim>\<open>uint8_t\<close>: the low 8 bits of the complement.\<close>

definition CRC :: "u8 list \<Rightarrow> u8" where
  "CRC packet = ucast (NOT (crc_loop packet 0 0))"

section \<open>Building and sending a packet\<close>

text \<open>
  The first two statements of \<^verbatim>\<open>sendData\<close>. Shifts bind tighter than \<^verbatim>\<open>|\<close>. The value
  is an \<^verbatim>\<open>int32_t\<close> converted to \<^verbatim>\<open>int64_t\<close> (sign extension) before the shift, and the
  shift of a negative value is the two's complement one, as the compiler of the target
  does it.
\<close>

definition sendData_packet :: "u8 \<Rightarrow> u16 \<Rightarrow> u32 \<Rightarrow> packet" where
  "sendData_packet type ident val =
     (let packet = ucast type OR push_bit 8 (ucast ident) OR push_bit 24 (scast val)
      in set_byte packet 7 (CRC (packet_bytes packet)))"

definition reg_write :: "reg \<Rightarrow> u8 \<Rightarrow> sport_state \<Rightarrow> sport_state" where
  "reg_write r v st = st\<lparr> regs := (regs st)(r := v), effects := effects st @ [RegWrite r v] \<rparr>"

definition serial_write :: "u8 \<Rightarrow> sport_state \<Rightarrow> sport_state" where
  "serial_write b st = st\<lparr> effects := effects st @ [SerialWrite b] \<rparr>"

definition serial_flush :: "sport_state \<Rightarrow> sport_state" where
  "serial_flush st = st\<lparr> effects := effects st @ [SerialFlush] \<rparr>"

text \<open>The body of the \<^verbatim>\<open>for\<close> loop of \<^verbatim>\<open>sendData\<close> for one byte.\<close>

definition send_byte :: "u8 \<Rightarrow> sport_state \<Rightarrow> sport_state" where
  "send_byte b st =
     (if b = SPORT_FRAME_BEGIN \<or> b = SPORT_BYTE_STUFF_MARKER
      then serial_write (b XOR SPORT_BYTE_STUFF_MASK) (serial_write SPORT_BYTE_STUFF_MARKER st)
      else serial_write b st)"

function send_loop :: "packet \<Rightarrow> nat \<Rightarrow> sport_state \<Rightarrow> sport_state" where
  "send_loop packet i st =
     (if i < 8 then send_loop packet (i + 1) (send_byte (byte_at packet i) st) else st)"
  by pat_completeness auto
termination
  by (relation "measure (\<lambda>(packet, i, st). 8 - i)") auto

declare send_loop.simps [simp del]

definition sendData :: "u8 \<Rightarrow> u16 \<Rightarrow> u32 \<Rightarrow> sport_state \<Rightarrow> sport_state" where
  "sendData type ident val st =
     (let packet = sendData_packet type ident val;
          st = reg_write UART_C3 (regs st UART_C3 OR UART_C3_TXDIR) st;
          st = send_loop packet 0 st;
          st = serial_flush st
      in reg_write UART_C3 (regs st UART_C3 AND NOT UART_C3_TXDIR) st)"

section \<open>Initialisation, polling, updating the table\<close>

text \<open>
  \<^verbatim>\<open>begin\<close> (primed: the word is a keyword of Isabelle). The value
  \<^verbatim>\<open>UART_C1_LOOPS | UART_C1_RSRC\<close> comes from the headers of the Teensy core, which are
  not part of this library: it is the parameter \<open>loops_rsrc\<close>.
\<close>

definition begin' :: "u8 \<Rightarrow> u8 \<Rightarrow> u8 \<Rightarrow> sport_state \<Rightarrow> sport_state" where
  "begin' loops_rsrc sensorId' sensorValues' st =
     (let st = st\<lparr> sensorId := sensorId', sensorValues := sensorValues' \<rparr>;
          st = st\<lparr> effects := effects st @ [SerialBegin 57600] \<rparr>;
          st = reg_write UART_C3 0x10 st;
          st = reg_write UART_S2 0x10 st
      in reg_write UART_C1 loops_rsrc st)"

text \<open>
  What a call can come to: it returns, it never leaves the wait
  \<^verbatim>\<open>while (!sportSerial.available());\<close> because no further byte arrives, or it does
  something C++ leaves undefined (an access outside the table, a remainder by zero).
\<close>

datatype fault = OutOfBounds | DivByZero

datatype outcome = Done sport_state | Waiting sport_state | Fault fault

text \<open>\<^verbatim>\<open>(_sensorTableIdx + 1) % _sensorValues\<close>, computed in \<^verbatim>\<open>int\<close>, stored in a \<^verbatim>\<open>uint8_t\<close>.\<close>

definition next_idx :: "u8 \<Rightarrow> u8 \<Rightarrow> fault + u8" where
  "next_idx idx n =
     (if n = 0 then Inl DivByZero else Inr (word_of_nat ((unat idx + 1) mod unat n)))"

text \<open>The body of the inner \<^verbatim>\<open>if\<close> of \<^verbatim>\<open>poll\<close>: send the slot under the cursor, advance.\<close>

definition answer :: "sport_state \<Rightarrow> fault + sport_state" where
  "answer st =
     (if unat (sensorTableIdx st) < MAX_SENSORS then
        (let slot = sensorTable st (unat (sensorTableIdx st));
             st = sendData 0x10 (id' slot) (val' slot) st
         in case next_idx (sensorTableIdx st) (sensorValues st) of
              Inl f \<Rightarrow> Inl f
            | Inr i \<Rightarrow> Inr (st\<lparr> sensorTableIdx := i \<rparr>))
      else Inl OutOfBounds)"

text \<open>
  \<^verbatim>\<open>poll\<close>. The list is what \<^verbatim>\<open>sportSerial.read()\<close> delivers during the call, in order;
  \<^verbatim>\<open>available()\<close> is false when it is used up.
\<close>

fun poll :: "sport_state \<Rightarrow> u8 list \<Rightarrow> outcome" where
  "poll st [] = Done st"
| "poll st [b] = (if b = SPORT_FRAME_BEGIN then Waiting st else Done st)"
| "poll st (b # c # rx) =
     (if b = SPORT_FRAME_BEGIN then
        (if c = sensorId st \<and> sensorValues st \<noteq> 0 then
           (case answer st of Inl f \<Rightarrow> Fault f | Inr st' \<Rightarrow> poll st' rx)
         else poll st rx)
      else poll st (c # rx))"

text \<open>\<^verbatim>\<open>setSensorData\<close>: a write outside the array is undefined.\<close>

definition setSensorData :: "u8 \<Rightarrow> u16 \<Rightarrow> u32 \<Rightarrow> sport_state \<Rightarrow> fault + sport_state" where
  "setSensorData idx ident val st =
     (if unat idx < MAX_SENSORS then
        Inr (st\<lparr> sensorTable := (sensorTable st)(unat idx := \<lparr> id' = ident, val' = val \<rparr>) \<rparr>)
      else Inl OutOfBounds)"

section \<open>What goes onto the wire\<close>

text \<open>The bytes handed to \<^verbatim>\<open>sportSerial.write\<close> in a log of effects, in order.\<close>

fun written :: "event list \<Rightarrow> u8 list" where
  "written [] = []"
| "written (SerialWrite b # es) = b # written es"
| "written (e # es) = written es"

text \<open>
  The bytes \<open>send_byte\<close> writes for one byte of the packet (lemma \<open>send_byte_eq\<close>), and
  those \<open>sendData\<close> writes for a whole packet (lemma \<open>sendData_eq\<close>).
\<close>

definition stuffed :: "u8 \<Rightarrow> u8 list" where
  "stuffed b =
     (if b = SPORT_FRAME_BEGIN \<or> b = SPORT_BYTE_STUFF_MARKER
      then [SPORT_BYTE_STUFF_MARKER, b XOR SPORT_BYTE_STUFF_MASK] else [b])"

definition wire_bytes :: "u8 \<Rightarrow> u16 \<Rightarrow> u32 \<Rightarrow> u8 list" where
  "wire_bytes type ident val =
     concat (map stuffed (packet_bytes (sendData_packet type ident val)))"

text \<open>
  Modelled from the spec: the receiver's de-stuffing. The library only sends, so no
  source function does this; section 4.2 of the specification describes it: upon seeing
  \<open>0x7D\<close>, discard it and XOR the following byte with \<open>0x20\<close>. A marker that ends the
  input is discarded with nothing following it.
\<close>

fun destuff :: "u8 list \<Rightarrow> u8 list" where
  "destuff [] = []"
| "destuff [b] = (if b = 0x7D then [] else [b])"
| "destuff (b # c # bs) =
     (if b = 0x7D then (c XOR 0x20) # destuff bs else b # destuff (c # bs))"

text \<open>The transmit direction is the \<^verbatim>\<open>TXDIR\<close> bit of \<^verbatim>\<open>UART0_C3\<close>.\<close>

definition tx_asserted :: "u8 \<Rightarrow> bool" where
  "tx_asserted c3 = (c3 AND UART_C3_TXDIR \<noteq> 0)"

section \<open>Auxiliary notions for the checksum and the packet layout\<close>

text \<open>
  The 64-bit value \<^verbatim>\<open>sendData\<close> assigns to \<^verbatim>\<open>packet.uint64\<close>, before the checksum is
  stored into \<^verbatim>\<open>packet.byte[7]\<close> (lemma \<open>sendData_packet_eq\<close>).
\<close>

definition raw_word :: "u8 \<Rightarrow> u16 \<Rightarrow> u32 \<Rightarrow> u64" where
  "raw_word type ident val =
     ucast type OR push_bit 8 (ucast ident) OR push_bit 24 (scast val)"

text \<open>
  On numbers, one round of \<open>crc_step\<close> is an addition with end-around carry (lemma
  \<open>unat_crc_step\<close>), and the accumulator after any number of rounds is \<open>canon\<close> of the
  sum of the bytes (lemma \<open>unat_crc_loop\<close>): 0 for the sum 0, and otherwise the
  representative in \<open>1..255\<close> of the sum modulo 255.
\<close>

definition oc_add :: "nat \<Rightarrow> nat \<Rightarrow> nat" where
  "oc_add c b = (if c + b < 256 then c + b else c + b - 255)"

definition canon :: "nat \<Rightarrow> nat" where
  "canon s = (if s = 0 then 0 else (s - 1) mod 255 + 1)"

text \<open>
  The checksum as section 4.1 of the specification words it, on numbers, to compare
  \<open>CRC\<close> with: a 16-bit accumulator that starts at 0; for each byte, add the byte; if
  the accumulator exceeds 8 bits, add \<open>accumulator >> 8\<close> to it and mask to 8 bits;
  repeat the fold-and-mask step a second time; the result is the low 8 bits of the
  complement of the accumulator.
\<close>

definition spec_fold :: "nat \<Rightarrow> nat" where
  "spec_fold a = (if 255 < a then ((a + a div 256) mod 65536) mod 256 else a)"

definition spec_step :: "nat \<Rightarrow> nat \<Rightarrow> nat" where
  "spec_step a b = spec_fold (spec_fold ((a + b) mod 65536))"

definition spec_checksum :: "nat list \<Rightarrow> nat" where
  "spec_checksum bs = (65535 - foldl spec_step 0 bs) mod 256"

section \<open>Auxiliary notions for the dispatcher\<close>

text \<open>The invariant of the cursor: \<^verbatim>\<open>_sensorTableIdx < _sensorValues\<close>.\<close>

definition cursor_inv :: "sport_state \<Rightarrow> bool" where
  "cursor_inv st = (unat (sensorTableIdx st) < unat (sensorValues st))"

text \<open>
  The number of data frames in a log of effects: \<open>sendData\<close> flushes once per frame, and
  nothing else flushes.
\<close>

definition frames :: "event list \<Rightarrow> nat" where
  "frames es = length (filter (\<lambda>e. e = SerialFlush) es)"

text \<open>The bytes \<open>poll\<close> puts on the wire when it answers with slot \<open>j\<close> of the table.\<close>

definition slot_bytes :: "sport_state \<Rightarrow> nat \<Rightarrow> u8 list" where
  "slot_bytes st j = wire_bytes 0x10 (id' (sensorTable st j)) (val' (sensorTable st j))"

section \<open>The checksum as arithmetic\<close>

lemma ff_mask: "(0xFF :: 'a::len word) = mask 8"
  by (simp add: mask_eq_exp_minus_1)

lemma sdrop_small:
  fixes x :: short
  assumes "unat x < 512"
  shows "signed_drop_bit 8 x = drop_bit 8 x"
proof -
  have "x < 2 ^ 9"
    using assms by (simp add: word_less_nat_alt)
  then have "x AND mask 9 = x"
    by (rule less_mask_eq)
  then have *: "bit x n \<Longrightarrow> n < 9" for n
    by (metis bit_and_iff bit_mask_iff)
  have a: "\<not> bit x 15" using * [of 15] by auto
  have b: "\<not> bit x (8 + n)" if "8 \<le> n" for n
    using * [of "8 + n"] that by auto
  show ?thesis
    apply (intro bit_word_eqI) 
    apply (simp add: bit_simps a b)
    done
qed

lemma unat_and_ff: "unat ((x :: short) AND 0x00ff) = unat x mod 256"
  unfolding ff_mask
  by (simp add: take_bit_eq_mask [symmetric] unsigned_take_bit_eq take_bit_eq_mod unat_mod)

lemma unat_drop8: "unat (drop_bit 8 (x :: short)) = unat x div 256"
  by (simp add: unat_drop_bit_eq drop_bit_eq_div unat_div)

lemma unat_u8_bound: "unat (b :: u8) < 256"
  using unsigned_less [of b] by simp

lemma unat_ucast_u8: "unat (ucast (b :: u8) :: short) = unat b"
  using unat_u8_bound [of b] by (simp add: unsigned_ucast_eq take_bit_nat_eq_self_iff) 

lemma fold_carry:
  fixes x :: short
  assumes "unat x < 511"
  shows "unat ((x + signed_drop_bit 8 x) AND 0x00ff) = (unat x + unat x div 256) mod 256"
proof -
  have "unat x div 256 \<le> 1"
    using assms by simp
  with assms have "unat x + unat x div 256 < 2 ^ 16"
    by simp
  then have "unat (x + drop_bit 8 x) = unat x + unat x div 256"
    by (simp add: unat_drop8 unat_word_ariths del: drop_bit_word_numeral)
  moreover have "signed_drop_bit 8 x = drop_bit 8 x"
    using assms by (intro sdrop_small) simp
  ultimately show ?thesis
    by (simp only: unat_and_ff)
qed


lemma unat_crc_step:
  assumes "unat crc \<le> 255"
  shows "unat (crc_step crc b) = oc_add (unat crc) (unat b)"
proof -
  define x where "x = crc + ucast b"
  define y where "y = (x + signed_drop_bit 8 x) AND 0x00ff"
  have "unat crc + unat b < 2 ^ 16"
    using assms unat_u8_bound [of b] by simp
  then have x: "unat x = unat crc + unat b"
    by (simp add: x_def unat_word_ariths unat_ucast_u8)
  then have xb: "unat x < 511"
    using assms unat_u8_bound [of b] by simp
  have y: "unat y = (unat x + unat x div 256) mod 256"
    unfolding y_def using xb by (rule fold_carry)
  then have yb: "unat y < 256" by simp
  then have "unat ((y + signed_drop_bit 8 y) AND 0x00ff) = unat y"
    by (simp add: fold_carry)
  moreover have "crc_step crc b = (y + signed_drop_bit 8 y) AND 0x00ff"
    by (simp only: crc_step_def Let_def x_def y_def)
  ultimately have "unat (crc_step crc b) = unat y"
    by simp
  also have "\<dots> = oc_add (unat crc) (unat b)"
  proof (cases "unat x < 256")
    case True
    then show ?thesis by (simp add: y x oc_add_def)
  next
    case False
    with xb have "unat x div 256 = 1" by simp
    with False xb have "(unat x + unat x div 256) mod 256 = unat x - 255"
      by (simp add: mod_if)
    with False show ?thesis by (simp add: y x oc_add_def)
  qed
  finally show ?thesis .
qed


lemma canon_small: "c \<le> 255 \<Longrightarrow> canon c = c"
  by (simp add: canon_def)

lemma canon_le: "canon s \<le> 255"
proof -
  have "(s - Suc 0) mod 255 < 255" by simp
  then show ?thesis by (auto simp: canon_def)
qed

lemma oc_add_canon:
  assumes "b \<le> 255"
  shows "oc_add (canon s) b = canon (s + b)"
proof (cases "s = 0")
  case True
  with assms show ?thesis
    by (simp add: oc_add_def canon_small)
next
  case False
  define q where "q = (s - 1) mod 255"
  have q: "q < 255" by (simp add: q_def)
  have "s + b - 1 = (s - 1) + b"
    using False by simp
  then have "(s + b - 1) mod 255 = (q + b) mod 255"
    by (simp add: q_def mod_add_left_eq)
  then have sb: "canon (s + b) = (q + b) mod 255 + 1"
    using False by (simp add: canon_def)
  have cs: "canon s = q + 1"
    using False by (simp add: canon_def q_def)
  show ?thesis
  proof (cases "q + b < 255")
    case True
    then show ?thesis by (simp add: sb cs oc_add_def)
  next
    case False
    with q assms have "(q + b) mod 255 = q + b - 255"
      by (simp add: mod_if)
    with False show ?thesis by (simp add: sb cs oc_add_def)
  qed
qed

lemma crc_loop_fold:
  "crc_loop packet i crc = fold (\<lambda>b c. crc_step c b) (map ((!) packet) [i..<8]) crc"
proof (induction packet i crc rule: crc_loop.induct)
  case (1 packet i crc)
  show ?case
  proof (cases "i < 8")
    case True
    with 1 show ?thesis
      by (subst crc_loop.simps) (simp add: upt_conv_Cons)
  next
    case False
    then show ?thesis by (subst crc_loop.simps) simp
  qed
qed

lemma unat_fold_crc_step:
  "unat crc = canon s \<Longrightarrow>
   unat (fold (\<lambda>b c. crc_step c b) bs crc) = canon (s + sum_list (map unat bs))"
proof (induction bs arbitrary: crc s)
  case Nil
  then show ?case by simp
next
  case (Cons b bs)
  have "unat (crc_step crc b) = canon (s + unat b)"
    using Cons.prems canon_le [of s] unat_u8_bound [of b]
    by (simp add: unat_crc_step oc_add_canon)
  from Cons.IH [OF this] show ?case
    by (simp add: add.assoc)
qed

lemma unat_crc_loop:
  assumes "length packet = 8"
  shows "unat (crc_loop packet 0 0) = canon (sum_list (map unat packet))"
proof -
  have "map ((!) packet) [0..<8] = packet"
    using assms map_nth [of packet] by simp
  then have "crc_loop packet 0 0 = fold (\<lambda>b c. crc_step c b) packet 0"
    by (simp add: crc_loop_fold)
  moreover have "unat (0 :: short) = canon 0"
    by (simp add: canon_def)
  ultimately show ?thesis
    using unat_fold_crc_step [of 0 0 packet] by simp
qed


lemma unat_CRC:
  assumes "length packet = 8"
  shows "unat (CRC packet) = 255 - canon (sum_list (map unat packet))"
proof -
  define acc where "acc = crc_loop packet 0 0"
  have acc: "unat acc = canon (sum_list (map unat packet))"
    unfolding acc_def using assms by (rule unat_crc_loop)
  then have le: "unat acc \<le> 255"
    by (simp add: canon_le)
  have "(ucast (NOT acc) :: u8) = NOT (ucast acc)"
    by (rule bit_word_eqI) (auto simp: bit_simps)
  also have "\<dots> = 255 - ucast acc"
    by (simp add: not_eq_complement)
  finally have "CRC packet = 255 - ucast acc"
    by (simp add: CRC_def acc_def)
  moreover have "unat (ucast acc :: u8) = unat acc"
    using le by (simp add: unsigned_ucast_eq take_bit_nat_eq_self_iff)
  moreover have "unat (255 - (ucast acc :: u8)) = 255 - unat (ucast acc :: u8)"
    using unat_u8_bound [of "ucast acc"] by (simp add: unat_sub word_le_nat_alt)
  ultimately show ?thesis
    by (simp add: acc)
qed

lemma CRC_eq_iff:
  assumes "length p = 8" "length p' = 8"
  shows "CRC p = CRC p' \<longleftrightarrow>
         canon (sum_list (map unat p)) = canon (sum_list (map unat p'))"
proof -
  have "CRC p = CRC p' \<longleftrightarrow> unat (CRC p) = unat (CRC p')"
    by (simp add: word_unat_eq_iff)
  also have "\<dots> \<longleftrightarrow> canon (sum_list (map unat p)) = canon (sum_list (map unat p'))"
    using canon_le [of "sum_list (map unat p)"] canon_le [of "sum_list (map unat p')"]
    by (simp add: unat_CRC assms) linarith
  finally show ?thesis .
qed


lemma spec_step_oc_add:
  assumes "a \<le> 255" "b \<le> 255"
  shows "spec_step a b = oc_add a b"
proof (cases "a + b < 256")
  case True
  then show ?thesis by (simp add: spec_step_def spec_fold_def oc_add_def)
next
  case False
  with assms have d: "(a + b) div 256 = 1" by simp
  from False assms have "((a + b) + 1) mod 65536 mod 256 = a + b - 255"
    by (simp add: mod_if)
  with False assms d show ?thesis
    by (simp add: spec_step_def spec_fold_def oc_add_def)
qed

lemma foldl_spec_step:
  assumes "\<forall>b \<in> set bs. b \<le> 255"
  shows "foldl spec_step (canon s) bs = canon (s + sum_list bs)"
  using assms
proof (induction bs arbitrary: s)
  case Nil
  then show ?case by simp
next
  case (Cons b bs)
  then have b: "b \<le> 255" by simp
  have "spec_step (canon s) b = canon (s + b)"
    using canon_le [of s] b by (simp add: spec_step_oc_add oc_add_canon)
  with Cons show ?case by (simp add: add.assoc)
qed

lemma spec_checksum_canon:
  assumes "\<forall>b \<in> set bs. b \<le> 255"
  shows "spec_checksum bs = 255 - canon (sum_list bs)"
proof -
  have "foldl spec_step 0 bs = canon (sum_list bs)"
    using foldl_spec_step [OF assms, of 0] by (simp add: canon_def)
  moreover have "(65535 - c) mod 256 = 255 - c" if "c \<le> 255" for c :: nat
  proof -
    have "65535 - c = (255 - c) + 255 * 256" using that by simp
    then have "(65535 - c) mod 256 = (255 - c) mod 256" by (simp only: mod_mult_self1)
    then show ?thesis by simp
  qed
  ultimately show ?thesis
    using canon_le [of "sum_list bs"] by (simp add: spec_checksum_def)
qed

lemma CRC_spec_checksum:
  assumes "length packet = 8"
  shows "unat (CRC packet) = spec_checksum (map unat packet)"
proof -
  have "\<forall>b \<in> set (map unat packet). b \<le> 255"
  proof
    fix b assume "b \<in> set (map unat packet)"
    then obtain w :: u8 where "b = unat w" by auto
    with unat_u8_bound [of w] show "b \<le> 255" by simp
  qed
  from spec_checksum_canon [OF this] unat_CRC [OF assms] show ?thesis by simp
qed

lemma canon_eq_0_iff: "canon s = 0 \<longleftrightarrow> s = 0"
  by (simp add: canon_def)

lemma canon_mod: "canon s mod 255 = s mod 255"
proof (cases "s = 0")
  case True
  then show ?thesis by (simp add: canon_def)
next
  case False
  then have "canon s mod 255 = ((s - 1) mod 255 + 1 mod 255) mod 255"
    by (simp add: canon_def)
  also have "\<dots> = (s - 1 + 1) mod 255"
    by (simp only: mod_add_eq)
  finally show ?thesis using False by simp
qed

lemma canon_add_255: "R \<noteq> 0 \<Longrightarrow> canon (R + 255) = canon R"
proof -
  assume "R \<noteq> 0"
  then have "R + 255 - 1 = (R - 1) + 255" by simp
  then have "(R + 255 - 1) mod 255 = (R - 1) mod 255"
    by (simp only: mod_add_self2)
  with \<open>R \<noteq> 0\<close> show ?thesis by (simp add: canon_def)
qed

lemma mod_255_cancel_less:
  fixes a b R :: nat
  assumes "(R + a) mod 255 = (R + b) mod 255" "a < b" "b \<le> 255"
  shows "a = 0 \<and> b = 255"
proof -
  have "R + a \<le> R + b" using assms by simp
  then have "255 dvd (R + b) - (R + a)"
    using assms(1) by (simp only: mod_eq_dvd_iff_nat [symmetric])
  then have "255 dvd b - a" by simp
  moreover have "0 < b - a" using assms by simp
  ultimately have "255 \<le> b - a" by (rule dvd_imp_le)
  with assms(2,3) show ?thesis by arith
qed

lemma mod_255_cancel:
  fixes u v R :: nat
  assumes "(R + u) mod 255 = (R + v) mod 255" "u \<le> 255" "v \<le> 255" "u \<noteq> v"
  shows "u = 0 \<and> v = 255 \<or> u = 255 \<and> v = 0"
proof (cases "u < v")
  case True
  with assms mod_255_cancel_less [of R u v] show ?thesis by simp
next
  case False
  with assms have "v < u" by simp
  with assms mod_255_cancel_less [of R v u] show ?thesis by simp
qed

lemma canon_edit:
  assumes "u \<le> 255" "v \<le> 255" "u \<noteq> v"
  shows "canon (R + u) = canon (R + v) \<longleftrightarrow> (u = 0 \<and> v = 255 \<or> u = 255 \<and> v = 0) \<and> R \<noteq> 0"
proof
  assume eq: "canon (R + u) = canon (R + v)"
  then have "canon (R + u) mod 255 = canon (R + v) mod 255"
    by (simp only:)
  then have "(R + u) mod 255 = (R + v) mod 255"
    by (simp only: canon_mod)
  then have uv: "u = 0 \<and> v = 255 \<or> u = 255 \<and> v = 0"
    using assms by (rule mod_255_cancel)
  have "R \<noteq> 0"
  proof
    assume "R = 0"
    with eq assms show False by (simp add: canon_small)
  qed
  with uv show "(u = 0 \<and> v = 255 \<or> u = 255 \<and> v = 0) \<and> R \<noteq> 0" ..
next
  assume "(u = 0 \<and> v = 255 \<or> u = 255 \<and> v = 0) \<and> R \<noteq> 0"
  then show "canon (R + u) = canon (R + v)"
    by (auto simp: canon_add_255)
qed


lemma sum_list_unat_update:
  assumes "i < length b"
  shows "sum_list (map unat (b[i := v])) = sum_list (map unat (b[i := 0])) + unat v"
proof -
  have "sum_list (map unat (b[i := w])) = sum_list (map unat b) + unat w - unat (b ! i)" for w
    using assms by (simp add: map_update sum_list_update)
  moreover have "unat (b ! i) \<le> sum_list (map unat b)"
    using assms elem_le_sum_list [of i "map unat b"] by simp
  ultimately show ?thesis by simp
qed

lemma sum_list_rest_0_iff:
  assumes "i < length b"
  shows "sum_list (map unat (b[i := 0])) \<noteq> 0 \<longleftrightarrow> (\<exists>j<length b. j \<noteq> i \<and> b ! j \<noteq> 0)"
proof -
  have "sum_list (map unat (b[i := 0])) = 0 \<longleftrightarrow> (\<forall>j<length b. (b[i := 0]) ! j = 0)"
    by (simp add: all_set_conv_all_nth unat_eq_0)
  also have "\<dots> \<longleftrightarrow> (\<forall>j<length b. j \<noteq> i \<longrightarrow> b ! j = 0)"
    using assms by (auto simp: nth_list_update)
  finally show ?thesis by auto
qed

lemma CRC_update_iff:
  assumes "length b = 8" "i < 8" "v \<noteq> b ! i"
  shows "CRC (b[i := v]) = CRC b \<longleftrightarrow>
         (v = 0 \<and> b ! i = 0xFF \<or> v = 0xFF \<and> b ! i = 0) \<and> (\<exists>j<8. j \<noteq> i \<and> b ! j \<noteq> 0)"
proof -
  define R where "R = sum_list (map unat (b[i := 0]))"
  have i: "i < length b" using assms by simp
  have s1: "sum_list (map unat (b[i := v])) = R + unat v"
    unfolding R_def using i by (rule sum_list_unat_update)
  have "sum_list (map unat (b[i := b ! i])) = R + unat (b ! i)"
    unfolding R_def using i by (rule sum_list_unat_update)
  then have s2: "sum_list (map unat b) = R + unat (b ! i)"
    by simp
  have ne: "unat v \<noteq> unat (b ! i)"
    using assms(3) by (simp add: word_unat_eq_iff)
  have "CRC (b[i := v]) = CRC b \<longleftrightarrow> canon (R + unat v) = canon (R + unat (b ! i))"
    using assms by (simp add: CRC_eq_iff s1 s2)
  also have "\<dots> \<longleftrightarrow> (unat v = 0 \<and> unat (b ! i) = 255 \<or> unat v = 255 \<and> unat (b ! i) = 0) \<and> R \<noteq> 0"
    using unat_u8_bound [of v] unat_u8_bound [of "b ! i"] ne
    by (intro canon_edit) simp_all
  also have "R \<noteq> 0 \<longleftrightarrow> (\<exists>j<8. j \<noteq> i \<and> b ! j \<noteq> 0)"
    unfolding R_def using sum_list_rest_0_iff [OF i] assms(1) by simp
  also have "unat v = 0 \<longleftrightarrow> v = 0" by (simp add: unat_eq_0)
  also have "unat (b ! i) = 0 \<longleftrightarrow> b ! i = 0" by (simp add: unat_eq_0)
  also have "unat v = 255 \<longleftrightarrow> v = 0xFF" by (simp add: word_unat_eq_iff)
  also have "unat (b ! i) = 255 \<longleftrightarrow> b ! i = 0xFF" by (simp add: word_unat_eq_iff)
  finally show ?thesis .
qed

text \<open>
  Claim C5, as amended. For an 8-byte input \<open>b\<close>, an index \<open>i < 8\<close> and a byte \<open>v\<close>
  other than \<open>b ! i\<close>, the checksum of \<open>b\<close> with byte \<open>i\<close> replaced by \<open>v\<close> differs
  from the checksum of \<open>b\<close>, except in one case: the old and the new byte are \<open>0x00\<close>
  and \<open>0xFF\<close> (in either order) and some other byte of \<open>b\<close> is not zero; then the two
  checksums are equal. The checksum is a function of its input.
\<close>

theorem CRC_single_byte_edit:
  assumes "length b = 8" "i < 8" "v \<noteq> b ! i"
  shows "(CRC (b[i := v]) \<noteq> CRC b) =
           (\<not> ((v = 0 \<and> b ! i = 0xFF \<or> v = 0xFF \<and> b ! i = 0)
               \<and> (\<exists>j<8. j \<noteq> i \<and> b ! j \<noteq> 0)))
       \<and> (b' = b \<longrightarrow> CRC b' = CRC b)"
  using CRC_update_iff [OF assms] by simp

theorem CRC_single_byte_edit_witness:
  "length [1, 0, 0, 0, 0, 0, 0, 0 :: u8] = 8 \<and> (0 :: nat) < 8
   \<and> (2 :: u8) \<noteq> [1, 0, 0, 0, 0, 0, 0, 0] ! 0
   \<and> CRC ([1, 0, 0, 0, 0, 0, 0, 0][0 := 2]) \<noteq> CRC [1, 0, 0, 0, 0, 0, 0, 0]"
  using CRC_single_byte_edit [of "[1, 0, 0, 0, 0, 0, 0, 0]" 0 2] by simp

text \<open>
  The claim as it is stated fails: with byte 0 equal to 1, replacing byte 1, which is
  \<open>0x00\<close>, by \<open>0xFF\<close> leaves the checksum as it was.
\<close>

theorem CRC_single_byte_edit_counterexample:
  "length [1, 0, 0, 0, 0, 0, 0, 0 :: u8] = 8 \<and> (1 :: nat) < 8
   \<and> (0xFF :: u8) \<noteq> [1, 0, 0, 0, 0, 0, 0, 0] ! 1
   \<and> CRC ([1, 0, 0, 0, 0, 0, 0, 0][1 := 0xFF]) = CRC [1, 0, 0, 0, 0, 0, 0, 0]"
proof -
  have "CRC ([1, 0, 0, 0, 0, 0, 0, 0][1 := 0xFF]) = CRC [1, 0, 0, 0, 0, 0, 0, 0]"
    by code_simp
  then show ?thesis by simp
qed

section \<open>The layout of the packet\<close>

lemma byte_at_set_byte_7: "byte_at (set_byte p 7 c) 7 = c"
  unfolding byte_at_def set_byte_def ff_mask
  by (rule bit_word_eqI) (auto simp: bit_simps)

lemma byte_at_set_byte_other: "j < 7 \<Longrightarrow> byte_at (set_byte p 7 c) j = byte_at p j"
  unfolding byte_at_def set_byte_def ff_mask
  by (rule bit_word_eqI) (auto simp: bit_simps)

lemma raw_byte0: "byte_at (raw_word t i v) 0 = t"
  unfolding byte_at_def raw_word_def
  by (rule bit_word_eqI) (auto simp: bit_simps dest: bit_imp_le_length)

lemma raw_byte1: "byte_at (raw_word t i v) 1 = ucast i"
  unfolding byte_at_def raw_word_def
  by (rule bit_word_eqI) (auto simp: bit_simps dest: bit_imp_le_length)

lemma raw_byte2: "byte_at (raw_word t i v) 2 = ucast (drop_bit 8 i)"
  unfolding byte_at_def raw_word_def
  by (rule bit_word_eqI) (auto simp: bit_simps dest: bit_imp_le_length)

lemma raw_byte_val: "k < 4 \<Longrightarrow> byte_at (raw_word t i v) (3 + k) = ucast (drop_bit (8 * k) v)"
  unfolding byte_at_def raw_word_def
  by (rule bit_word_eqI) (auto simp: bit_simps dest: bit_imp_le_length)

lemma raw_byte7: "byte_at (raw_word t i v) 7 = (if bit v 31 then 0xFF else 0)"
  unfolding byte_at_def raw_word_def ff_mask
  by (rule bit_word_eqI) (auto simp: bit_simps dest: bit_imp_le_length)

lemma sendData_packet_eq:
  "sendData_packet type ident val =
     set_byte (raw_word type ident val) 7 (CRC (packet_bytes (raw_word type ident val)))"
  by (simp only: sendData_packet_def raw_word_def Let_def)

lemma packet_bytes_eq:
  "packet_bytes p = [byte_at p 0, byte_at p 1, byte_at p 2, byte_at p 3,
                     byte_at p 4, byte_at p 5, byte_at p 6, byte_at p 7]"
  by (simp add: packet_bytes_def upt_conv_Cons eval_nat_numeral)

lemma length_packet_bytes: "length (packet_bytes p) = 8"
  by (simp add: packet_bytes_def)

lemma packet_bytes_set_byte_7: "packet_bytes (set_byte p 7 c) = (packet_bytes p)[7 := c]"
  by (simp add: packet_bytes_eq byte_at_set_byte_7 byte_at_set_byte_other)

lemma sint_byte: "k < 4 \<Longrightarrow> (ucast (drop_bit (8 * k) (v :: u32)) :: u8) = word_of_int (sint v div 2 ^ (8 * k))"
  apply (rule bit_word_eqI) 
  apply (auto simp: bit_simps drop_bit_eq_div [symmetric] bit_sint_iff dest: bit_imp_le_length)
  done

lemma CRC_raw_placeholder:
  "CRC (packet_bytes (raw_word t i v)) = CRC ((packet_bytes (raw_word t i v))[7 := 0])"
proof (cases "bit v 31")
  case False
  then have "(packet_bytes (raw_word t i v))[7 := 0] = packet_bytes (raw_word t i v)"
    by (simp add: packet_bytes_eq raw_byte7)
  then show ?thesis by simp
next
  case True
  let ?b = "packet_bytes (raw_word t i v)"
  have b7: "?b ! 7 = 0xFF"
    using True by (simp add: packet_bytes_eq raw_byte7)
  have "byte_at (raw_word t i v) (3 + 3) = ucast (drop_bit (8 * 3) v)"
    by (rule raw_byte_val) simp
  then have "bit (byte_at (raw_word t i v) 6) 7"
    using True by (simp add: bit_simps)
  then have "byte_at (raw_word t i v) 6 \<noteq> 0"
    by auto
  then have b6: "?b ! 6 \<noteq> 0"
    by (simp add: packet_bytes_eq)
  have "CRC (?b[7 := 0]) = CRC ?b \<longleftrightarrow>
         (0 = (0::u8) \<and> ?b ! 7 = 0xFF \<or> (0::u8) = 0xFF \<and> ?b ! 7 = 0) \<and> (\<exists>j<8. j \<noteq> 7 \<and> ?b ! j \<noteq> 0)"
    by (rule CRC_update_iff) (simp_all add: length_packet_bytes b7)
  moreover have "\<exists>j<8. j \<noteq> 7 \<and> ?b ! j \<noteq> 0"
    using b6 by (intro exI [of _ 6]) simp
  ultimately show ?thesis
    using b7 by simp
qed

lemma sendData_packet_low_bytes:
  "j < 7 \<Longrightarrow> byte_at (sendData_packet type ident val) j = byte_at (raw_word type ident val) j"
  by (simp add: sendData_packet_eq byte_at_set_byte_other)

lemma sendData_packet_placeholder:
  "(packet_bytes (sendData_packet type ident val))[7 := 0] =
     [type, ucast ident, ucast (drop_bit 8 ident),
      ucast val, ucast (drop_bit 8 val), ucast (drop_bit 16 val), ucast (drop_bit 24 val), 0]"
proof -
  let ?P = "sendData_packet type ident val"
  have v: "byte_at ?P 3 = ucast val" "byte_at ?P 4 = ucast (drop_bit 8 val)"
    "byte_at ?P 5 = ucast (drop_bit 16 val)" "byte_at ?P 6 = ucast (drop_bit 24 val)"
    using raw_byte_val [of 0 type ident val] raw_byte_val [of 1 type ident val]
      raw_byte_val [of 2 type ident val] raw_byte_val [of 3 type ident val]
    by (simp_all add: sendData_packet_low_bytes)
  show ?thesis
    using raw_byte1 [of type ident val]
    by (simp add: packet_bytes_eq v sendData_packet_low_bytes raw_byte0 raw_byte2)
qed

text \<open>
  Claim C1. For every type, id and value, negative values included, byte 7 of the packet
  built by \<open>sendData\<close> is the checksum \<open>CRC\<close> of that packet with byte 7 replaced by 0,
  and this is the checksum of section 4.1: as a number it is \<open>spec_checksum\<close> of the
  seven bytes of type, id and value followed by 0, which is 255 minus the end-around-carry
  sum of these bytes. For \<open>(0x10, 0x0600, 1234)\<close> it is \<open>0x13\<close>, for the all-zero packet
  \<open>0xFF\<close>, and for \<open>(0x10, 0x0600, -1)\<close> it is \<open>0xE9\<close>.
  (When \<open>CRC\<close> is called, byte 7 holds the sign extension of the value, \<open>0xFF\<close> for a
  negative one: lemma \<open>raw_byte7\<close>. The checksum is the same as with 0 there, because the
  other bytes of a negative value are not all zero.)
\<close>

theorem sendData_packet_checksum:
  "byte_at (sendData_packet type ident val) 7 =
     CRC ((packet_bytes (sendData_packet type ident val))[7 := 0])
   \<and> unat (byte_at (sendData_packet type ident val) 7) =
       spec_checksum (map unat ((packet_bytes (sendData_packet type ident val))[7 := 0]))
   \<and> unat (byte_at (sendData_packet type ident val) 7) =
       spec_checksum
         [unat type, unat (ucast ident :: u8), unat (ucast (drop_bit 8 ident) :: u8),
          unat (ucast val :: u8), unat (ucast (drop_bit 8 val) :: u8),
          unat (ucast (drop_bit 16 val) :: u8), unat (ucast (drop_bit 24 val) :: u8), 0]
   \<and> unat (byte_at (sendData_packet type ident val) 7) =
       255 - canon (unat type + unat (ucast ident :: u8) + unat (ucast (drop_bit 8 ident) :: u8)
         + unat (ucast val :: u8) + unat (ucast (drop_bit 8 val) :: u8)
         + unat (ucast (drop_bit 16 val) :: u8) + unat (ucast (drop_bit 24 val) :: u8))
   \<and> byte_at (sendData_packet 0x10 0x0600 1234) 7 = 0x13
   \<and> byte_at (sendData_packet 0 0 0) 7 = 0xFF
   \<and> byte_at (sendData_packet 0x10 0x0600 (- 1)) 7 = 0xE9"
proof -
  let ?P = "sendData_packet type ident val"
  let ?b = "(packet_bytes ?P)[7 := 0]"
  have "?b = (packet_bytes (raw_word type ident val))[7 := 0]"
    by (simp add: sendData_packet_eq packet_bytes_set_byte_7)
  moreover have "byte_at ?P 7 = CRC (packet_bytes (raw_word type ident val))"
    by (simp add: sendData_packet_eq byte_at_set_byte_7)
  ultimately have crc: "byte_at ?P 7 = CRC ?b"
    by (simp add: CRC_raw_placeholder)
  have len: "length ?b = 8"
    by (simp add: length_packet_bytes)
  have spec: "unat (byte_at ?P 7) = spec_checksum (map unat ?b)"
    unfolding crc using len by (rule CRC_spec_checksum)
  have arith: "unat (byte_at ?P 7) = 255 - canon (sum_list (map unat ?b))"
    unfolding crc using len by (rule unat_CRC)
  have c1: "byte_at (sendData_packet 0x10 0x0600 1234) 7 = 0x13"
    by code_simp
  have c2: "byte_at (sendData_packet 0 0 0) 7 = 0xFF"
    by code_simp
  have c3: "byte_at (sendData_packet 0x10 0x0600 (- 1)) 7 = 0xE9"
    by code_simp
  from spec have spec': "unat (byte_at ?P 7) =
       spec_checksum
         [unat type, unat (ucast ident :: u8), unat (ucast (drop_bit 8 ident) :: u8),
          unat (ucast val :: u8), unat (ucast (drop_bit 8 val) :: u8),
          unat (ucast (drop_bit 16 val) :: u8), unat (ucast (drop_bit 24 val) :: u8), 0]"
    by (simp only: sendData_packet_placeholder list.map unsigned_0)
  from arith have arith': "unat (byte_at ?P 7) =
       255 - canon (unat type + unat (ucast ident :: u8) + unat (ucast (drop_bit 8 ident) :: u8)
         + unat (ucast val :: u8) + unat (ucast (drop_bit 8 val) :: u8)
         + unat (ucast (drop_bit 16 val) :: u8) + unat (ucast (drop_bit 24 val) :: u8))"
    by (simp only: sendData_packet_placeholder list.map unsigned_0 sum_list.Cons sum_list.Nil
        add_0_right add.assoc)
  from crc spec spec' arith' c1 c2 c3 show ?thesis
    by (intro conjI)
qed

text \<open>
  Claim C2. For every type, id and value, byte 0 of the packet built by \<open>sendData\<close> is
  the type, bytes 1 and 2 are the id, low byte first, and bytes 3 to 6 are the value, low
  byte first, in two's complement: byte \<open>3 + k\<close> is the low 8 bits of the signed value
  divided by \<open>2 ^ (8 * k)\<close>, rounding down. And \<open>sendData(0x10, 0x0600, 1234)\<close> builds
  \<open>[0x10, 0x00, 0x06, 0xD2, 0x04, 0x00, 0x00, CRC]\<close> with \<open>CRC\<close> the checksum of the
  first seven bytes followed by 0.
\<close>

theorem sendData_packet_layout:
  "packet_bytes (sendData_packet type ident val) =
     [type, ucast ident, ucast (drop_bit 8 ident),
      ucast val, ucast (drop_bit 8 val), ucast (drop_bit 16 val), ucast (drop_bit 24 val),
      byte_at (sendData_packet type ident val) 7]
   \<and> byte_at (sendData_packet type ident val) 3 = word_of_int (sint val)
   \<and> byte_at (sendData_packet type ident val) 4 = word_of_int (sint val div 2 ^ 8)
   \<and> byte_at (sendData_packet type ident val) 5 = word_of_int (sint val div 2 ^ 16)
   \<and> byte_at (sendData_packet type ident val) 6 = word_of_int (sint val div 2 ^ 24)
   \<and> packet_bytes (sendData_packet 0x10 0x0600 1234) =
       [0x10, 0x00, 0x06, 0xD2, 0x04, 0x00, 0x00,
        CRC [0x10, 0x00, 0x06, 0xD2, 0x04, 0x00, 0x00, 0x00]]"
proof -
  let ?P = "sendData_packet type ident val"
  have v: "byte_at ?P 3 = ucast val" "byte_at ?P 4 = ucast (drop_bit 8 val)"
    "byte_at ?P 5 = ucast (drop_bit 16 val)" "byte_at ?P 6 = ucast (drop_bit 24 val)"
    using raw_byte_val [of 0 type ident val] raw_byte_val [of 1 type ident val]
      raw_byte_val [of 2 type ident val] raw_byte_val [of 3 type ident val]
    by (simp_all add: sendData_packet_low_bytes)
  have "packet_bytes ?P =
     [type, ucast ident, ucast (drop_bit 8 ident),
      ucast val, ucast (drop_bit 8 val), ucast (drop_bit 16 val), ucast (drop_bit 24 val),
      byte_at ?P 7]"
    using raw_byte1 [of type ident val]
    by (simp add: packet_bytes_eq v sendData_packet_low_bytes raw_byte0 raw_byte2)
  moreover have "byte_at ?P 3 = word_of_int (sint val)"
    "byte_at ?P 4 = word_of_int (sint val div 2 ^ 8)"
    "byte_at ?P 5 = word_of_int (sint val div 2 ^ 16)"
    "byte_at ?P 6 = word_of_int (sint val div 2 ^ 24)"
    using sint_byte [of 0 val] sint_byte [of 1 val] sint_byte [of 2 val] sint_byte [of 3 val]
    by (simp_all add: v)
  moreover have "packet_bytes (sendData_packet 0x10 0x0600 1234) =
       [0x10, 0x00, 0x06, 0xD2, 0x04, 0x00, 0x00,
        CRC [0x10, 0x00, 0x06, 0xD2, 0x04, 0x00, 0x00, 0x00]]"
    by code_simp
  ultimately show ?thesis by simp
qed

section \<open>Sending: the effects of \<open>sendData\<close>\<close>

lemma written_append: "written (xs @ ys) = written xs @ written ys"
  by (induction xs rule: written.induct) simp_all

lemma written_map_SerialWrite: "written (map SerialWrite bs) = bs"
  by (induction bs) simp_all

lemma send_byte_eq:
  "send_byte b st = st\<lparr> effects := effects st @ map SerialWrite (stuffed b) \<rparr>"
  by (simp add: send_byte_def stuffed_def serial_write_def)

lemma fold_send_byte:
  "fold send_byte bs st =
     st\<lparr> effects := effects st @ map SerialWrite (concat (map stuffed bs)) \<rparr>"
  by (induction bs arbitrary: st) (simp_all add: send_byte_eq)

lemma send_loop_fold: "send_loop p i st = fold send_byte (map (byte_at p) [i..<8]) st"
proof (induction p i st rule: send_loop.induct)
  case (1 p i st)
  show ?case
  proof (cases "i < 8")
    case True
    with 1 show ?thesis
      by (subst send_loop.simps) (simp add: upt_conv_Cons)
  next
    case False
    then show ?thesis by (subst send_loop.simps) simp
  qed
qed

lemma send_loop_eq:
  "send_loop p 0 st =
     st\<lparr> effects := effects st @ map SerialWrite (concat (map stuffed (packet_bytes p))) \<rparr>"
  by (simp add: send_loop_fold fold_send_byte packet_bytes_def)

lemma sendData_eq:
  "sendData type ident val st =
     st\<lparr> regs := (regs st)(UART_C3 := (regs st UART_C3 OR UART_C3_TXDIR) AND NOT UART_C3_TXDIR),
         effects := effects st @
           RegWrite UART_C3 (regs st UART_C3 OR UART_C3_TXDIR) #
           map SerialWrite (wire_bytes type ident val) @
           [SerialFlush,
            RegWrite UART_C3 ((regs st UART_C3 OR UART_C3_TXDIR) AND NOT UART_C3_TXDIR)] \<rparr>"
  by (simp add: sendData_def Let_def send_loop_eq reg_write_def serial_flush_def wire_bytes_def)

lemma sendData_fields [simp]:
  "sensorTable (sendData type ident val st) = sensorTable st"
  "sensorTableIdx (sendData type ident val st) = sensorTableIdx st"
  "sensorId (sendData type ident val st) = sensorId st"
  "sensorValues (sendData type ident val st) = sensorValues st"
  by (simp_all add: sendData_eq)

lemma written_sendData:
  "written (effects (sendData type ident val st)) =
     written (effects st) @ wire_bytes type ident val"
  by (simp add: sendData_eq written_append written_map_SerialWrite)

subsection \<open>Byte stuffing\<close>

lemma destuff_stuffed: "destuff (stuffed b @ rest) = b # destuff rest"
proof (cases "b = 0x7E \<or> b = 0x7D")
  case True
  then show ?thesis
    by (auto simp: stuffed_def SPORT_FRAME_BEGIN_def SPORT_BYTE_STUFF_MARKER_def
        SPORT_BYTE_STUFF_MASK_def)
next
  case False
  then show ?thesis
    by (cases rest)
      (simp_all add: stuffed_def SPORT_FRAME_BEGIN_def SPORT_BYTE_STUFF_MARKER_def)
qed

lemma destuff_concat_stuffed: "destuff (concat (map stuffed bs)) = bs"
  by (induction bs) (simp_all add: destuff_stuffed)

text \<open>
  Claim C3. For every byte \<open>v\<close> that \<open>sendData\<close> sends, the loop body writes exactly
  \<open>[v]\<close> when \<open>v\<close> is neither \<open>0x7E\<close> nor \<open>0x7D\<close>, and exactly \<open>[0x7D, v XOR 0x20]\<close>
  when it is one of them; and de-stuffing what one call of \<open>sendData\<close> has written
  gives back the 8 raw bytes of its packet.
\<close>

theorem stuffing_roundtrip:
  "effects (send_byte v st) =
     effects st @ map SerialWrite (if v = 0x7E \<or> v = 0x7D then [0x7D, v XOR 0x20] else [v])
   \<and> (\<exists>ws. written (effects (sendData type ident val st)) = written (effects st) @ ws
          \<and> destuff ws = packet_bytes (sendData_packet type ident val))"
proof
  show "effects (send_byte v st) =
     effects st @ map SerialWrite (if v = 0x7E \<or> v = 0x7D then [0x7D, v XOR 0x20] else [v])"
    by (simp add: send_byte_def serial_write_def SPORT_FRAME_BEGIN_def
        SPORT_BYTE_STUFF_MARKER_def SPORT_BYTE_STUFF_MASK_def)
  have "destuff (wire_bytes type ident val) = packet_bytes (sendData_packet type ident val)"
    by (simp add: wire_bytes_def destuff_concat_stuffed)
  with written_sendData [of type ident val st]
  show "\<exists>ws. written (effects (sendData type ident val st)) = written (effects st) @ ws
          \<and> destuff ws = packet_bytes (sendData_packet type ident val)"
    by blast
qed

subsection \<open>Transmit direction\<close>

lemma tx_asserted_set: "tx_asserted (c OR UART_C3_TXDIR)"
proof -
  have "(c OR UART_C3_TXDIR) AND UART_C3_TXDIR = UART_C3_TXDIR"
    by simp
  then show ?thesis
    by (simp add: tx_asserted_def) (simp add: UART_C3_TXDIR_def)
qed

lemma tx_asserted_clear: "\<not> tx_asserted (c AND NOT UART_C3_TXDIR)"
  by (simp add: tx_asserted_def and.assoc)

text \<open>
  Claim C9. The effects of one \<open>sendData\<close> call are, in this order: the write to
  \<^verbatim>\<open>UART0_C3\<close> that sets the transmit direction, the writes of the stuffed packet bytes
  and nothing else, the flush, and the write to \<^verbatim>\<open>UART0_C3\<close> that clears the transmit
  direction. So transmit is asserted before the first byte, stays asserted during every
  write, and is released only after the flush that follows the last write.
\<close>

theorem sendData_transmit_framing:
  "\<exists>ws. effects (sendData type ident val st) =
          effects st @ [RegWrite UART_C3 (regs st UART_C3 OR UART_C3_TXDIR)] @
            map SerialWrite ws @
            [SerialFlush, RegWrite UART_C3 (regs (sendData type ident val st) UART_C3)]
        \<and> written (effects (sendData type ident val st)) = written (effects st) @ ws
        \<and> tx_asserted (regs st UART_C3 OR UART_C3_TXDIR)
        \<and> \<not> tx_asserted (regs (sendData type ident val st) UART_C3)"
proof (intro exI [of _ "wire_bytes type ident val"] conjI)
  show "effects (sendData type ident val st) =
          effects st @ [RegWrite UART_C3 (regs st UART_C3 OR UART_C3_TXDIR)] @
            map SerialWrite (wire_bytes type ident val) @
            [SerialFlush, RegWrite UART_C3 (regs (sendData type ident val st) UART_C3)]"
    by (simp add: sendData_eq)
  show "written (effects (sendData type ident val st)) =
          written (effects st) @ wire_bytes type ident val"
    by (rule written_sendData)
  show "tx_asserted (regs st UART_C3 OR UART_C3_TXDIR)"
    by (rule tx_asserted_set)
  show "\<not> tx_asserted (regs (sendData type ident val st) UART_C3)"
    by (simp add: sendData_eq tx_asserted_clear)
qed

section \<open>The poll dispatcher\<close>

text \<open>
  Claim C6. When \<open>poll\<close> reads the frame-begin marker \<open>0x7E\<close> followed by a byte that is
  not the configured sensor id, nothing is transmitted and nothing changes: the call
  on these two bytes returns the state it was given, and with more input behind them
  it goes on exactly as a call on that remaining input would, looking for a frame begin.
\<close>

theorem poll_ignores_other_id:
  assumes "c \<noteq> sensorId st"
  shows "poll st [SPORT_FRAME_BEGIN, c] = Done st
       \<and> poll st (SPORT_FRAME_BEGIN # c # rx) = poll st rx"
  using assms by simp

theorem poll_ignores_other_id_witness:
  "(0x7E :: u8) \<noteq> sensorId (begin' 0xA0 0x06 2 initial_state)
   \<and> poll (begin' 0xA0 0x06 2 initial_state) [SPORT_FRAME_BEGIN, 0x7E]
       = Done (begin' 0xA0 0x06 2 initial_state)
   \<and> poll (begin' 0xA0 0x06 2 initial_state) (SPORT_FRAME_BEGIN # 0x7E # [0x06])
       = poll (begin' 0xA0 0x06 2 initial_state) [0x06]"
proof -
  have h: "(0x7E :: u8) \<noteq> sensorId (begin' 0xA0 0x06 2 initial_state)"
    by (simp add: begin'_def reg_write_def Let_def)
  from poll_ignores_other_id [OF h, of "[0x06]"] h show ?thesis
    by blast
qed

lemma answer_not_DivByZero: "sensorValues st \<noteq> 0 \<Longrightarrow> answer st \<noteq> Inl DivByZero"
  by (simp add: answer_def next_idx_def Let_def)

lemma poll_not_DivByZero: "poll st rx \<noteq> Fault DivByZero"
proof (induction st rx rule: poll.induct)
  case (3 st b c rx)
  then show ?case
    by (auto simp: answer_not_DivByZero split: sum.splits)
qed simp_all

lemma poll_inactive: "sensorValues st = 0 \<Longrightarrow> poll st rx = Done st \<or> poll st rx = Waiting st"
  by (induction st rx rule: poll.induct) simp_all

text \<open>
  Claim C7. When \<^verbatim>\<open>_sensorValues\<close> is 0, \<open>poll\<close> on any input leaves the state as it
  was, the log of effects included, so no data frame is transmitted: it returns, or it
  waits for the byte after a frame begin. The remainder by \<^verbatim>\<open>_sensorValues\<close> is never
  computed with a zero divisor.
\<close>

theorem poll_inactive_silent:
  assumes "sensorValues st = 0"
  shows "(poll st rx = Done st \<or> poll st rx = Waiting st) \<and> poll st rx \<noteq> Fault DivByZero"
  using assms by (simp add: poll_inactive poll_not_DivByZero)

theorem poll_inactive_silent_witness:
  "sensorValues initial_state = 0
   \<and> (poll initial_state [0x7E, 0x00, 0x10, 0x7E, 0x00] = Done initial_state
      \<or> poll initial_state [0x7E, 0x00, 0x10, 0x7E, 0x00] = Waiting initial_state)
   \<and> poll initial_state [0x7E, 0x00, 0x10, 0x7E, 0x00] \<noteq> Fault DivByZero"
proof -
  have h: "sensorValues initial_state = 0"
    by (simp add: initial_state_def)
  from poll_inactive_silent [OF h, of "[0x7E, 0x00, 0x10, 0x7E, 0x00]"] h show ?thesis
    by blast
qed

section \<open>The cursor and the round robin\<close>

lemma unat_next_idx:
  assumes "n \<noteq> 0"
  shows "\<exists>i. next_idx idx n = Inr i \<and> unat i = (unat idx + 1) mod unat n"
proof -
  have n: "0 < unat n" using assms by (simp add: unat_gt_0)
  then have "(unat idx + 1) mod unat n < unat n" by simp
  also have "unat n < 2 ^ LENGTH(8)" by (rule unsigned_less)
  finally have "unat (word_of_nat ((unat idx + 1) mod unat n) :: u8) = (unat idx + 1) mod unat n"
    by (simp only: unat_of_nat mod_less)
  with assms show ?thesis by (simp add: next_idx_def)
qed

lemma frames_sendData: "frames (effects (sendData type ident val st)) = frames (effects st) + 1"
  by (simp add: sendData_eq frames_def)

lemma answer_Inr:
  assumes "answer st = Inr st'"
  shows "sensorTable st' = sensorTable st \<and> sensorId st' = sensorId st
       \<and> sensorValues st' = sensorValues st
       \<and> (sensorValues st \<noteq> 0 \<longrightarrow>
            unat (sensorTableIdx st') = (unat (sensorTableIdx st) + 1) mod unat (sensorValues st))
       \<and> frames (effects st') = frames (effects st) + 1
       \<and> written (effects st') =
            written (effects st) @ slot_bytes st (unat (sensorTableIdx st))"
proof (cases "sensorValues st = 0")
  case True
  with assms show ?thesis
    by (simp add: answer_def next_idx_def Let_def split: if_splits)
next
  case False
  from unat_next_idx [OF this] obtain i where
    i: "next_idx (sensorTableIdx st) (sensorValues st) = Inr i"
       "unat i = (unat (sensorTableIdx st) + 1) mod unat (sensorValues st)"
    by blast
  with assms False show ?thesis
    by (auto simp: answer_def Let_def frames_sendData written_sendData slot_bytes_def
        split: if_splits)
qed

lemma answer_defined:
  assumes "cursor_inv st" "unat (sensorValues st) \<le> MAX_SENSORS"
  shows "\<exists>st'. answer st = Inr st'"
proof -
  from assms have "sensorValues st \<noteq> 0" "unat (sensorTableIdx st) < MAX_SENSORS"
    by (auto simp: cursor_inv_def)
  with unat_next_idx [of "sensorValues st" "sensorTableIdx st"] show ?thesis
    by (auto simp: answer_def Let_def)
qed

lemma answer_cursor_inv:
  assumes "answer st = Inr st'" "sensorValues st \<noteq> 0"
  shows "cursor_inv st'"
proof -
  have "0 < unat (sensorValues st)" using assms(2) by (simp add: unat_gt_0)
  then have "(unat (sensorTableIdx st) + 1) mod unat (sensorValues st) < unat (sensorValues st)"
    by simp
  with answer_Inr [OF assms(1)] assms(2) show ?thesis
    by (simp add: cursor_inv_def)
qed



lemma poll_cursor:
  assumes "poll st rx = Done st' \<or> poll st rx = Waiting st'" "cursor_inv st"
  shows "cursor_inv st' \<and> sensorValues st' = sensorValues st \<and>
         (\<exists>k. frames (effects st') = frames (effects st) + k \<and>
              unat (sensorTableIdx st') = (unat (sensorTableIdx st) + k) mod unat (sensorValues st))"
  using assms
proof (induction st rx arbitrary: st' rule: poll.induct)
  case (1 st)
  then have "st' = st" by simp
  with 1 show ?case by (simp add: cursor_inv_def)
next
  case (2 st b)
  then have "st' = st" by (simp split: if_splits)
  with 2 show ?case by (simp add: cursor_inv_def)
next
  case (3 st b c rx)
  show ?case
  proof (cases "b = SPORT_FRAME_BEGIN")
    case False
    with "3.prems"(1) have "poll st (c # rx) = Done st' \<or> poll st (c # rx) = Waiting st'"
      by simp
    from "3.IH"(3) [OF False this "3.prems"(2)] show ?thesis .
  next
    case True
    show ?thesis
    proof (cases "c = sensorId st \<and> sensorValues st \<noteq> 0")
      case False
      with True "3.prems"(1) have "poll st rx = Done st' \<or> poll st rx = Waiting st'"
        by simp
      from "3.IH"(2) [OF True False this "3.prems"(2)] show ?thesis .
    next
      case match: True
      obtain st1 where a: "answer st = Inr st1"
        and p: "poll st1 rx = Done st' \<or> poll st1 rx = Waiting st'"
        using True match "3.prems"(1) by (cases "answer st") simp_all
      from a match have inv1: "cursor_inv st1" by (simp add: answer_cursor_inv)
      from "3.IH"(1) [OF True match a p inv1] obtain k where
        k: "cursor_inv st'" "sensorValues st' = sensorValues st1"
           "frames (effects st') = frames (effects st1) + k"
           "unat (sensorTableIdx st') = (unat (sensorTableIdx st1) + k) mod unat (sensorValues st1)"
        by blast
      from answer_Inr [OF a] match have s1: "sensorValues st1 = sensorValues st"
        "unat (sensorTableIdx st1) = (unat (sensorTableIdx st) + 1) mod unat (sensorValues st)"
        "frames (effects st1) = frames (effects st) + 1"
        by simp_all
      have i: "unat (sensorTableIdx st') = (unat (sensorTableIdx st) + Suc k) mod unat (sensorValues st)"
        by (simp add: k(4) s1(1,2) mod_add_left_eq)
      have f: "frames (effects st') = frames (effects st) + Suc k"
        by (simp add: k(3) s1(3))
      have v: "sensorValues st' = sensorValues st"
        by (simp add: k(2) s1(1))
      from f i have "\<exists>k. frames (effects st') = frames (effects st) + k \<and>
              unat (sensorTableIdx st') = (unat (sensorTableIdx st) + k) mod unat (sensorValues st)"
        by (intro exI [of _ "Suc k"] conjI)
      with k(1) v show ?thesis by (intro conjI)
    qed
  qed
qed


lemma poll_defined:
  assumes "cursor_inv st" "unat (sensorValues st) \<le> MAX_SENSORS"
  shows "\<exists>st'. poll st rx = Done st' \<or> poll st rx = Waiting st'"
  using assms
proof (induction st rx rule: poll.induct)
  case (1 st)
  show ?case by simp
next
  case (2 st b)
  show ?case by simp
next
  case (3 st b c rx)
  show ?case
  proof (cases "b = SPORT_FRAME_BEGIN")
    case False
    with "3.IH"(3) [OF False "3.prems"] show ?thesis by simp
  next
    case True
    show ?thesis
    proof (cases "c = sensorId st \<and> sensorValues st \<noteq> 0")
      case False
      with "3.IH"(2) [OF True False "3.prems"] True show ?thesis by auto
    next
      case match: True
      from answer_defined [OF "3.prems"] obtain st1 where a: "answer st = Inr st1" ..
      with match have inv1: "cursor_inv st1" by (simp add: answer_cursor_inv)
      from answer_Inr [OF a] "3.prems"(2) have "unat (sensorValues st1) \<le> MAX_SENSORS"
        by simp
      from "3.IH"(1) [OF True match a inv1 this] True match a show ?thesis by simp
    qed
  qed
qed


lemma begin'_fields:
  "sensorTable (begin' lr sid n st) = sensorTable st"
  "sensorTableIdx (begin' lr sid n st) = sensorTableIdx st"
  "sensorId (begin' lr sid n st) = sid"
  "sensorValues (begin' lr sid n st) = n"
  by (simp_all add: begin'_def reg_write_def Let_def)

lemma cursor_inv_begin':
  assumes "n \<noteq> 0" "sensorTableIdx st = 0"
  shows "cursor_inv (begin' lr sid n st)"
  using assms by (simp add: cursor_inv_def begin'_fields unat_gt_0)

lemma cursor_inv_sendData: "cursor_inv (sendData type ident val st) = cursor_inv st"
  by (simp add: cursor_inv_def)

lemma cursor_inv_setSensorData:
  "setSensorData idx ident val st = Inr st' \<Longrightarrow> cursor_inv st' = cursor_inv st"
  by (auto simp: setSensorData_def cursor_inv_def split: if_splits)

text \<open>
  Claim C8. After \<open>begin\<close> with a number of active sensors other than 0, called on a
  state whose cursor is still 0 (as it is until the first \<open>begin\<close>), the cursor is below
  \<^verbatim>\<open>_sensorValues\<close>. From any state where it is, \<open>sendData\<close>, a successful
  \<open>setSensorData\<close> and \<open>poll\<close> on any input (whether it returns or waits for an id byte)
  lead to a state where it is again, with \<^verbatim>\<open>_sensorValues\<close> unchanged. The cursor
  advances by exactly one modulo \<^verbatim>\<open>_sensorValues\<close> for each request answered: one
  answer sends one frame and moves the cursor by one, and a \<open>poll\<close> that sends \<open>k\<close> frames
  moves it by \<open>k\<close>. With at most \<open>MAX_SENSORS\<close> active sensors \<open>poll\<close> never leaves the
  table.
\<close>

theorem cursor_invariant:
  assumes "sensorValues' \<noteq> 0" "sensorTableIdx st0 = 0" "cursor_inv st"
  shows "cursor_inv (begin' loops_rsrc sensorId' sensorValues' st0)
    \<and> cursor_inv (sendData type ident val st)
    \<and> (\<forall>st'. setSensorData idx ident val st = Inr st' \<longrightarrow> cursor_inv st')
    \<and> (\<forall>st'. poll st rx = Done st' \<or> poll st rx = Waiting st' \<longrightarrow>
          cursor_inv st' \<and> sensorValues st' = sensorValues st \<and>
          (\<exists>k. frames (effects st') = frames (effects st) + k \<and>
               unat (sensorTableIdx st') =
                 (unat (sensorTableIdx st) + k) mod unat (sensorValues st)))
    \<and> (\<forall>st'. answer st = Inr st' \<longrightarrow>
          frames (effects st') = frames (effects st) + 1 \<and>
          unat (sensorTableIdx st') =
            (unat (sensorTableIdx st) + 1) mod unat (sensorValues st))
    \<and> (unat (sensorValues st) \<le> MAX_SENSORS \<longrightarrow>
          (\<exists>st'. poll st rx = Done st' \<or> poll st rx = Waiting st'))"
proof (intro conjI allI impI)
  show "cursor_inv (begin' loops_rsrc sensorId' sensorValues' st0)"
    using assms(1,2) by (rule cursor_inv_begin')
  show "cursor_inv (sendData type ident val st)"
    using assms(3) by (simp add: cursor_inv_sendData)
  show "cursor_inv st'" if "setSensorData idx ident val st = Inr st'" for st'
    using that assms(3) by (simp add: cursor_inv_setSensorData)
  have nz: "sensorValues st \<noteq> 0"
    using assms(3) by (auto simp: cursor_inv_def)
  fix st'
  {
    assume p: "poll st rx = Done st' \<or> poll st rx = Waiting st'"
    from poll_cursor [OF p assms(3)]
    show "cursor_inv st'" "sensorValues st' = sensorValues st"
      "\<exists>k. frames (effects st') = frames (effects st) + k \<and>
               unat (sensorTableIdx st') =
                 (unat (sensorTableIdx st) + k) mod unat (sensorValues st)"
      by blast+
  }
  {
    assume a: "answer st = Inr st'"
    from answer_Inr [OF a] nz
    show "frames (effects st') = frames (effects st) + 1"
      "unat (sensorTableIdx st') = (unat (sensorTableIdx st) + 1) mod unat (sensorValues st)"
      by blast+
  }
  show "\<exists>st'. poll st rx = Done st' \<or> poll st rx = Waiting st'"
    if "unat (sensorValues st) \<le> MAX_SENSORS"
    using assms(3) that by (rule poll_defined)
qed

theorem cursor_invariant_witness:
  "(2 :: u8) \<noteq> 0 \<and> sensorTableIdx initial_state = 0
   \<and> cursor_inv (begin' 0xA0 0x06 2 initial_state)
   \<and> cursor_inv (sendData 0x10 0x0600 100 (begin' 0xA0 0x06 2 initial_state))
   \<and> (\<exists>st'. (poll (begin' 0xA0 0x06 2 initial_state) [0x7E, 0x06] = Done st'
             \<or> poll (begin' 0xA0 0x06 2 initial_state) [0x7E, 0x06] = Waiting st')
          \<and> cursor_inv st')"
proof -
  let ?S = "begin' 0xA0 0x06 2 initial_state"
  have h1: "(2 :: u8) \<noteq> 0" by simp
  have h2: "sensorTableIdx initial_state = 0" by (simp add: initial_state_def)
  have h3: "cursor_inv ?S"
    by (simp add: cursor_inv_def begin'_fields initial_state_def)
  have n: "unat (sensorValues ?S) \<le> MAX_SENSORS"
    by (simp add: begin'_fields MAX_SENSORS_def)
  note t = cursor_invariant [OF h1 h2 h3, of "0xA0" "0x06" "0x10" "0x0600" 100 0 "[0x7E, 0x06]"]
  from t n obtain st' where
    p: "poll ?S [0x7E, 0x06] = Done st' \<or> poll ?S [0x7E, 0x06] = Waiting st'"
    by blast
  with t have "cursor_inv st'" by blast
  with p h1 h2 t show ?thesis by blast
qed


lemma slot_bytes_cong: "sensorTable st' = sensorTable st \<Longrightarrow> slot_bytes st' = slot_bytes st"
  by (simp add: slot_bytes_def fun_eq_iff)

lemma poll_request:
  "poll st (SPORT_FRAME_BEGIN # sensorId st # rx) =
     (if sensorValues st \<noteq> 0
      then case answer st of Inl f \<Rightarrow> Fault f | Inr st' \<Rightarrow> poll st' rx
      else poll st rx)"
  by simp

lemma poll_requests:
  assumes "cursor_inv st" "unat (sensorValues st) \<le> MAX_SENSORS"
  shows "\<exists>st'. poll st (concat (replicate k [SPORT_FRAME_BEGIN, sensorId st])) = Done st'
     \<and> sensorTable st' = sensorTable st \<and> sensorId st' = sensorId st
     \<and> sensorValues st' = sensorValues st
     \<and> unat (sensorTableIdx st') = (unat (sensorTableIdx st) + k) mod unat (sensorValues st)
     \<and> written (effects st') = written (effects st) @
          concat (map (\<lambda>j. slot_bytes st ((unat (sensorTableIdx st) + j) mod unat (sensorValues st)))
                   [0..<k])"
  using assms
proof (induction k arbitrary: st)
  case 0
  then show ?case by (simp add: cursor_inv_def)
next
  case (Suc k)
  let ?c = "unat (sensorTableIdx st)" and ?n = "unat (sensorValues st)"
  from Suc.prems have nz: "sensorValues st \<noteq> 0" and c: "?c < ?n"
    by (auto simp: cursor_inv_def)
  from answer_defined [OF Suc.prems] obtain st1 where a: "answer st = Inr st1" ..
  from answer_Inr [OF a] nz have s1:
    "sensorTable st1 = sensorTable st" "sensorId st1 = sensorId st"
    "sensorValues st1 = sensorValues st"
    "unat (sensorTableIdx st1) = (?c + 1) mod ?n"
    "written (effects st1) = written (effects st) @ slot_bytes st ?c"
    by simp_all
  have inv1: "cursor_inv st1" using a nz by (rule answer_cursor_inv)
  have le1: "unat (sensorValues st1) \<le> MAX_SENSORS" using Suc.prems(2) by (simp add: s1)
  from Suc.IH [OF inv1 le1] obtain st' where st':
    "poll st1 (concat (replicate k [SPORT_FRAME_BEGIN, sensorId st1])) = Done st'"
    "sensorTable st' = sensorTable st1" "sensorId st' = sensorId st1"
    "sensorValues st' = sensorValues st1"
    "unat (sensorTableIdx st') = (unat (sensorTableIdx st1) + k) mod unat (sensorValues st1)"
    "written (effects st') = written (effects st1) @
       concat (map (\<lambda>j. slot_bytes st1
                 ((unat (sensorTableIdx st1) + j) mod unat (sensorValues st1))) [0..<k])"
    by blast
  have p: "poll st (concat (replicate (Suc k) [SPORT_FRAME_BEGIN, sensorId st])) = Done st'"
    using st'(1) a nz by (simp add: s1)
  have idx: "(Suc ?c mod ?n + j) mod ?n = (?c + Suc j) mod ?n" for j
  proof -
    have "(Suc ?c mod ?n + j) mod ?n = (Suc ?c + j) mod ?n"
      by (rule mod_add_left_eq)
    then show ?thesis by simp
  qed
  have i: "unat (sensorTableIdx st') = (?c + Suc k) mod ?n"
    by (simp add: st'(5) s1 idx)
  have "map (\<lambda>j. slot_bytes st ((?c + j) mod ?n)) [0..<Suc k] =
          slot_bytes st ?c # map (\<lambda>j. slot_bytes st ((?c + Suc j) mod ?n)) [0..<k]"
    using c by (simp add: map_upt_Suc del: upt_Suc)
  then have w: "written (effects st') = written (effects st) @
          concat (map (\<lambda>j. slot_bytes st ((?c + j) mod ?n)) [0..<Suc k])"
    by (simp add: st'(6) s1 idx slot_bytes_cong [OF s1(1)])
  from p st'(2,3,4) s1(1,2,3) i w show ?case
    by simp
qed

lemma round_robin_order:
  assumes "c < (n :: nat)"
  shows "distinct (map (\<lambda>j. (c + j) mod n) [0..<n])"
    and "set (map (\<lambda>j. (c + j) mod n) [0..<n]) = {0..<n}"
proof -
  have inj: "inj_on (\<lambda>j. (c + j) mod n) {0..<n}"
  proof (rule inj_onI)
    fix x y assume x: "x \<in> {0..<n}" and y: "y \<in> {0..<n}"
      and e: "(c + x) mod n = (c + y) mod n"
    show "x = y"
    proof (rule ccontr)
      assume ne: "x \<noteq> y"
      { fix a b :: nat assume ab: "a < b" "b < n" and e': "(c + a) mod n = (c + b) mod n"
        have "c + a \<le> c + b" using ab by simp
        then have "n dvd (c + b) - (c + a)"
          using e' by (simp only: mod_eq_dvd_iff_nat [symmetric])
        then have "n dvd b - a" by simp
        moreover have "0 < b - a" using ab by simp
        ultimately have "n \<le> b - a" by (rule dvd_imp_le)
        with ab have False by simp }
      note aux = this
      from ne consider "x < y" | "y < x" by linarith
      then show False
      proof cases
        case 1 with aux [of x y] y e show False by simp
      next
        case 2 with aux [of y x] x e show False by simp
      qed
    qed
  qed
  then show d: "distinct (map (\<lambda>j. (c + j) mod n) [0..<n])"
    by (simp add: distinct_map)
  have sub: "set (map (\<lambda>j. (c + j) mod n) [0..<n]) \<subseteq> {0..<n}"
    using assms by auto
  have "card (set (map (\<lambda>j. (c + j) mod n) [0..<n])) = n"
    using d distinct_card [of "map (\<lambda>j. (c + j) mod n) [0..<n]"] by simp
  with sub show "set (map (\<lambda>j. (c + j) mod n) [0..<n]) = {0..<n}"
    by (intro card_subset_eq) simp_all
qed



lemma scenario_bytes:
  "wire_bytes 0x10 0x0600 100 = [0x10, 0x00, 0x06, 0x64, 0x00, 0x00, 0x00, 0x85]"
  "wire_bytes 0x10 0x0610 200 = [0x10, 0x10, 0x06, 0xC8, 0x00, 0x00, 0x00, 0x11]"
  by code_simp+

lemma scenario:
  "\<exists>s1 s2 s3 s4.
      setSensorData 0 0x0600 100 (begin' lr 0x06 2 initial_state) = Inr s1
    \<and> setSensorData 1 0x0610 200 s1 = Inr s2
    \<and> poll s2 [0x7E, 0x06] = Done s3
    \<and> poll s3 [0x7E, 0x06] = Done s4
    \<and> written (effects s3) = [0x10, 0x00, 0x06, 0x64, 0x00, 0x00, 0x00, 0x85]
    \<and> written (effects s4) = [0x10, 0x00, 0x06, 0x64, 0x00, 0x00, 0x00, 0x85,
                               0x10, 0x10, 0x06, 0xC8, 0x00, 0x00, 0x00, 0x11]"
proof -
  define s0 where "s0 = begin' lr 0x06 2 initial_state"
  define s1 where "s1 = s0\<lparr> sensorTable := (sensorTable s0)(0 := \<lparr> id' = 0x0600, val' = 100 \<rparr>) \<rparr>"
  define s2 where "s2 = s1\<lparr> sensorTable := (sensorTable s1)(1 := \<lparr> id' = 0x0610, val' = 200 \<rparr>) \<rparr>"
  define s3 where "s3 = (sendData 0x10 0x0600 100 s2)\<lparr> sensorTableIdx := 1 \<rparr>"
  define s4 where "s4 = (sendData 0x10 0x0610 200 s3)\<lparr> sensorTableIdx := 0 \<rparr>"
  have f0: "sensorId s0 = 0x06" "sensorValues s0 = 2" "sensorTableIdx s0 = 0"
    "written (effects s0) = []"
    by (simp_all add: s0_def begin'_def reg_write_def Let_def initial_state_def)
  have a1: "setSensorData 0 0x0600 100 s0 = Inr s1"
    by (simp add: setSensorData_def MAX_SENSORS_def s1_def)
  have a2: "setSensorData 1 0x0610 200 s1 = Inr s2"
    by (simp add: setSensorData_def MAX_SENSORS_def s2_def)
  have f2: "sensorId s2 = 0x06" "sensorValues s2 = 2" "sensorTableIdx s2 = 0"
    "sensorTable s2 0 = \<lparr> id' = 0x0600, val' = 100 \<rparr>"
    "sensorTable s2 (Suc 0) = \<lparr> id' = 0x0610, val' = 200 \<rparr>"
    "written (effects s2) = []"
    unfolding s2_def s1_def by (simp_all add: f0)
  have n2: "next_idx 0 2 = Inr 1" "next_idx 1 2 = Inr 0"
    by (simp_all add: next_idx_def)
  have a3: "answer s2 = Inr s3"
    by (simp add: answer_def Let_def f2 MAX_SENSORS_def n2 s3_def)
  have f3: "sensorId s3 = 0x06" "sensorValues s3 = 2" "sensorTableIdx s3 = 1"
    "sensorTable s3 (Suc 0) = \<lparr> id' = 0x0610, val' = 200 \<rparr>"
    "written (effects s3) = wire_bytes 0x10 0x0600 100"
    unfolding s3_def using f2 by (simp_all add: written_sendData)
  have a4: "answer s3 = Inr s4"
    by (simp add: answer_def Let_def f3 MAX_SENSORS_def n2 s4_def)
  have f4: "written (effects s4) = wire_bytes 0x10 0x0600 100 @ wire_bytes 0x10 0x0610 200"
    by (simp add: s4_def f3 written_sendData)
  have p3: "poll s2 [0x7E, 0x06] = Done s3"
    by (simp add: SPORT_FRAME_BEGIN_def f2 a3)
  have p4: "poll s3 [0x7E, 0x06] = Done s4"
    by (simp add: SPORT_FRAME_BEGIN_def f3 a4)
  from a1 a2 p3 p4 f3(5) f4 show ?thesis
    unfolding s0_def scenario_bytes by (intro exI [of _ s1] exI [of _ s2] exI [of _ s3] exI [of _ s4]) simp
qed


text \<open>
  Claim C4. Let the cursor \<open>c\<close> be below the number \<open>n\<close> of active sensors, \<open>n\<close> at most
  \<open>MAX_SENSORS\<close>. Then \<open>k\<close> poll requests in a row, each the frame-begin byte followed by
  the configured sensor id, are all answered: what is written is the frames of the slots
  \<open>c, c + 1, \<dots>\<close> modulo \<open>n\<close>, in this order, and the table is unchanged. For \<open>n + 1\<close>
  requests these are the frames of \<open>n\<close> slots followed by the frame of slot \<open>c\<close> again,
  and the \<open>n\<close> slots are pairwise different and are all of \<open>0..<n\<close>: every slot is sent
  exactly once. In particular after \<open>begin(0x06, 2)\<close>, slot 0 set to \<open>(0x0600, 100)\<close> and
  slot 1 to \<open>(0x0610, 200)\<close>, feeding \<open>[0x7E, 0x06]\<close> twice sends the packet of slot 0 and
  then the packet of slot 1.
\<close>

theorem poll_round_robin:
  assumes "cursor_inv st" "unat (sensorValues st) \<le> MAX_SENSORS"
  shows
   "(\<exists>st'. poll st (concat (replicate k [SPORT_FRAME_BEGIN, sensorId st])) = Done st'
        \<and> sensorTable st' = sensorTable st \<and> sensorId st' = sensorId st
        \<and> sensorValues st' = sensorValues st
        \<and> unat (sensorTableIdx st') = (unat (sensorTableIdx st) + k) mod unat (sensorValues st)
        \<and> written (effects st') = written (effects st) @
             concat (map (\<lambda>j. slot_bytes st
                       ((unat (sensorTableIdx st) + j) mod unat (sensorValues st))) [0..<k]))
    \<and> (\<exists>st'. poll st (concat (replicate (unat (sensorValues st) + 1)
                                 [SPORT_FRAME_BEGIN, sensorId st])) = Done st'
        \<and> written (effects st') = written (effects st) @
             concat (map (\<lambda>j. slot_bytes st
                       ((unat (sensorTableIdx st) + j) mod unat (sensorValues st)))
                     [0..<unat (sensorValues st)]) @
             slot_bytes st (unat (sensorTableIdx st)))
    \<and> distinct (map (\<lambda>j. (unat (sensorTableIdx st) + j) mod unat (sensorValues st))
                  [0..<unat (sensorValues st)])
    \<and> set (map (\<lambda>j. (unat (sensorTableIdx st) + j) mod unat (sensorValues st))
             [0..<unat (sensorValues st)]) = {0..<unat (sensorValues st)}
    \<and> (\<exists>s1 s2 s3 s4.
          setSensorData 0 0x0600 100 (begin' loops_rsrc 0x06 2 initial_state) = Inr s1
        \<and> setSensorData 1 0x0610 200 s1 = Inr s2
        \<and> poll s2 [0x7E, 0x06] = Done s3
        \<and> poll s3 [0x7E, 0x06] = Done s4
        \<and> written (effects s3) = [0x10, 0x00, 0x06, 0x64, 0x00, 0x00, 0x00, 0x85]
        \<and> written (effects s4) = [0x10, 0x00, 0x06, 0x64, 0x00, 0x00, 0x00, 0x85,
                                   0x10, 0x10, 0x06, 0xC8, 0x00, 0x00, 0x00, 0x11])"
proof -
  let ?c = "unat (sensorTableIdx st)" and ?n = "unat (sensorValues st)"
  have c: "?c < ?n" using assms(1) by (simp add: cursor_inv_def)
  from poll_requests [OF assms, of k]
  have general: "\<exists>st'. poll st (concat (replicate k [SPORT_FRAME_BEGIN, sensorId st])) = Done st'
        \<and> sensorTable st' = sensorTable st \<and> sensorId st' = sensorId st
        \<and> sensorValues st' = sensorValues st
        \<and> unat (sensorTableIdx st') = (?c + k) mod ?n
        \<and> written (effects st') = written (effects st) @
             concat (map (\<lambda>j. slot_bytes st ((?c + j) mod ?n)) [0..<k])"
    by blast
  from poll_requests [OF assms, of "?n + 1"] obtain st' where
    st': "poll st (concat (replicate (?n + 1) [SPORT_FRAME_BEGIN, sensorId st])) = Done st'"
      "written (effects st') = written (effects st) @
             concat (map (\<lambda>j. slot_bytes st ((?c + j) mod ?n)) [0..<?n + 1])"
    by blast
  have "(?c + ?n) mod ?n = ?c" using c by simp
  then have "concat (map (\<lambda>j. slot_bytes st ((?c + j) mod ?n)) [0..<?n + 1]) =
      concat (map (\<lambda>j. slot_bytes st ((?c + j) mod ?n)) [0..<?n]) @ slot_bytes st ?c"
    by simp
  with st' have wrap: "\<exists>st'. poll st (concat (replicate (?n + 1)
                                 [SPORT_FRAME_BEGIN, sensorId st])) = Done st'
        \<and> written (effects st') = written (effects st) @
             concat (map (\<lambda>j. slot_bytes st ((?c + j) mod ?n)) [0..<?n]) @ slot_bytes st ?c"
    by (intro exI [of _ st']) (simp only: append_assoc simp_thms)
  from general wrap round_robin_order [OF c] scenario [of loops_rsrc] show ?thesis
    by (intro conjI)
qed

theorem poll_round_robin_witness:
  "cursor_inv (begin' 0xA0 0x06 2 initial_state)
   \<and> unat (sensorValues (begin' 0xA0 0x06 2 initial_state)) \<le> MAX_SENSORS
   \<and> (\<exists>st'. poll (begin' 0xA0 0x06 2 initial_state)
              [0x7E, 0x06, 0x7E, 0x06, 0x7E, 0x06] = Done st'
          \<and> sensorTableIdx st' = 1
          \<and> written (effects st') =
               wire_bytes 0x10 0 0 @ wire_bytes 0x10 0 0 @ wire_bytes 0x10 0 0)"
proof -
  let ?S = "begin' 0xA0 0x06 2 initial_state"
  have f: "sensorId ?S = 0x06" "sensorValues ?S = 2" "sensorTableIdx ?S = 0"
    "sensorTable ?S = (\<lambda>_. \<lparr> id' = 0, val' = 0 \<rparr>)" "written (effects ?S) = []"
    by (simp_all add: begin'_def reg_write_def Let_def initial_state_def)
  have h1: "cursor_inv ?S"
    by (simp add: cursor_inv_def f)
  have h2: "unat (sensorValues ?S) \<le> MAX_SENSORS"
    by (simp add: f MAX_SENSORS_def)
  from poll_round_robin [OF h1 h2, of 3] obtain st' where
    "poll ?S (concat (replicate 3 [SPORT_FRAME_BEGIN, sensorId ?S])) = Done st'"
    "unat (sensorTableIdx st') = (unat (sensorTableIdx ?S) + 3) mod unat (sensorValues ?S)"
    "written (effects st') = written (effects ?S) @
       concat (map (\<lambda>j. slot_bytes ?S
                 ((unat (sensorTableIdx ?S) + j) mod unat (sensorValues ?S))) [0..<3])"
    by blast
  moreover have "concat (replicate 3 [SPORT_FRAME_BEGIN, sensorId ?S]) =
      [0x7E, 0x06, 0x7E, 0x06, 0x7E, 0x06]"
    by (simp add: f SPORT_FRAME_BEGIN_def numeral_3_eq_3)
  moreover have "(unat (sensorTableIdx ?S) + 3) mod unat (sensorValues ?S) = 1"
    by (simp add: f)
  moreover have "slot_bytes ?S j = wire_bytes 0x10 0 0" for j
    by (simp add: slot_bytes_def f)
  then have "concat (map (\<lambda>j. slot_bytes ?S
                 ((unat (sensorTableIdx ?S) + j) mod unat (sensorValues ?S))) [0..<3]) =
      wire_bytes 0x10 0 0 @ wire_bytes 0x10 0 0 @ wire_bytes 0x10 0 0"
    by (simp add: map_replicate_const numeral_3_eq_3)
  ultimately have "poll ?S [0x7E, 0x06, 0x7E, 0x06, 0x7E, 0x06] = Done st'"
    "unat (sensorTableIdx st') = 1"
    "written (effects st') = wire_bytes 0x10 0 0 @ wire_bytes 0x10 0 0 @ wire_bytes 0x10 0 0"
    by (simp_all only: f append_Nil)
  moreover from this(2) have "sensorTableIdx st' = 1"
    by (simp add: word_unat_eq_iff)
  ultimately show ?thesis using h1 h2 by blast
qed


section \<open>The sensor table\<close>

text \<open>
  Claim C10. For an index below \<open>MAX_SENSORS\<close>, \<open>setSensorData\<close> succeeds, the slot at
  the index holds the given id and value whatever it held before, and every other slot,
  the cursor, the sensor id, the number of active sensors, the registers and the log of
  effects are as they were.
\<close>

theorem setSensorData_frame:
  assumes "unat idx < MAX_SENSORS"
  shows "\<exists>st'. setSensorData idx ident val st = Inr st'
     \<and> sensorTable st' (unat idx) = \<lparr> id' = ident, val' = val \<rparr>
     \<and> (\<forall>j. j \<noteq> unat idx \<longrightarrow> sensorTable st' j = sensorTable st j)
     \<and> sensorTableIdx st' = sensorTableIdx st
     \<and> sensorId st' = sensorId st
     \<and> sensorValues st' = sensorValues st
     \<and> regs st' = regs st
     \<and> effects st' = effects st"
  using assms by (simp add: setSensorData_def)

theorem setSensorData_frame_witness:
  "unat (7 :: u8) < MAX_SENSORS
   \<and> (\<exists>st'. setSensorData 7 0x0600 100 initial_state = Inr st'
     \<and> sensorTable st' (unat (7 :: u8)) = \<lparr> id' = 0x0600, val' = 100 \<rparr>
     \<and> (\<forall>j. j \<noteq> unat (7 :: u8) \<longrightarrow> sensorTable st' j = sensorTable initial_state j)
     \<and> sensorTableIdx st' = sensorTableIdx initial_state
     \<and> sensorId st' = sensorId initial_state
     \<and> sensorValues st' = sensorValues initial_state
     \<and> regs st' = regs initial_state
     \<and> effects st' = effects initial_state)"
proof -
  have h: "unat (7 :: u8) < MAX_SENSORS"
    by (simp add: MAX_SENSORS_def)
  from setSensorData_frame [OF h, of "0x0600" 100 initial_state] h show ?thesis
    by blast
qed

end
